theory Spec2Isabelle
  imports Main
begin

section \<open>Neighborhood extraction: \<open>bfs_levels\<close>\<close>

text \<open>
  Node ids are Python integers.  An adjacency structure is a dictionary from a node id to
  the set of its neighbours; \<open>adj.get(u, set())\<close> reads it with the empty set as default.
\<close>

type_synonym adjacency = "int \<rightharpoonup> int set"

definition adj_get :: "adjacency \<Rightarrow> int \<Rightarrow> int set" where
  "adj_get adj u = (case adj u of None \<Rightarrow> {} | Some s \<Rightarrow> s)"

text \<open>
  The local function \<open>neighbors\<close> of \<open>bfs_levels\<close>.  The direction is the string the
  caller passes; every string other than \<open>out\<close> and \<open>in\<close> selects the union.
\<close>

definition neighbors :: "adjacency \<Rightarrow> adjacency \<Rightarrow> string \<Rightarrow> int \<Rightarrow> int set" where
  "neighbors out_adj in_adj direction u =
     (if direction = ''out'' then adj_get out_adj u
      else if direction = ''in'' then adj_get in_adj u
      else adj_get out_adj u \<union> adj_get in_adj u)"

text \<open>
  The two nested \<open>for\<close> loops of one round, run over some enumeration of the frontier and
  of each neighbour set (Python fixes no iteration order for a set).  The state is the pair
  of the sets \<open>visited\<close> and \<open>nxt\<close>, both updated in place by the source.
\<close>

fun visit_neighbors :: "int list \<Rightarrow> int set \<times> int set \<Rightarrow> int set \<times> int set" where
  "visit_neighbors [] (visited, nxt) = (visited, nxt)"
| "visit_neighbors (v # vs) (visited, nxt) =
     (if v \<notin> visited then visit_neighbors vs (insert v visited, insert v nxt)
      else visit_neighbors vs (visited, nxt))"

fun scan_frontier :: "(int \<Rightarrow> int list) \<Rightarrow> int list \<Rightarrow> int set \<times> int set \<Rightarrow> int set \<times> int set" where
  "scan_frontier nbl [] st = st"
| "scan_frontier nbl (u # us) st = scan_frontier nbl us (visit_neighbors (nbl u) st)"

text \<open>
  One round on sets: whatever the enumeration, the loops add to \<open>visited\<close> the neighbours of
  the frontier and collect in \<open>nxt\<close> those that were not visited before
  (lemma \<open>scan_frontier_sets\<close> below).
\<close>

definition bfs_round :: "(int \<Rightarrow> int set) \<Rightarrow> int set \<Rightarrow> int set \<Rightarrow> int set" where
  "bfs_round nb visited frontier = (\<Union>u\<in>frontier. nb u) - visited"

text \<open>
  The loop \<open>for _ in range(depth)\<close> with its \<open>break\<close>: the first argument counts the rounds
  that are left, the state is \<open>(levels, visited, frontier)\<close>.
\<close>

fun bfs_loop :: "(int \<Rightarrow> int set) \<Rightarrow> nat \<Rightarrow> int set list \<times> int set \<times> int set
    \<Rightarrow> int set list \<times> int set" where
  "bfs_loop nb 0 (levels, visited, frontier) = (levels, visited)"
| "bfs_loop nb (Suc n) (levels, visited, frontier) =
     (let nxt = bfs_round nb visited frontier in
      if nxt = {} then (levels, visited)
      else bfs_loop nb n (levels @ [nxt], visited \<union> nxt, nxt))"

definition bfs_levels :: "int \<Rightarrow> int \<Rightarrow> adjacency \<Rightarrow> adjacency \<Rightarrow> string
    \<Rightarrow> int set list \<times> int set" where
  "bfs_levels start depth out_adj in_adj direction =
     (let depth = (if depth < 0 then 0 else depth) in
      bfs_loop (neighbors out_adj in_adj direction) (nat depth)
        ([{start}], {start}, {start}))"

subsection \<open>Walks and distances\<close>

text \<open>
  \<open>is_walk nb u ws v\<close>: following the nodes \<open>ws\<close> one after the other from \<open>u\<close>, each a
  neighbour of the one before, ends in \<open>v\<close>.  The walk has \<open>length ws\<close> edges.
\<close>

fun is_walk :: "(int \<Rightarrow> int set) \<Rightarrow> int \<Rightarrow> int list \<Rightarrow> int \<Rightarrow> bool" where
  "is_walk nb u [] v = (u = v)"
| "is_walk nb u (w # ws) v = (w \<in> nb u \<and> is_walk nb w ws v)"

text \<open>The nodes at the end of a walk of exactly \<open>n\<close> edges from \<open>s\<close>.\<close>

fun reach :: "(int \<Rightarrow> int set) \<Rightarrow> int \<Rightarrow> nat \<Rightarrow> int set" where
  "reach nb s 0 = {s}"
| "reach nb s (Suc n) = (\<Union>u\<in>reach nb s n. nb u)"

definition within :: "(int \<Rightarrow> int set) \<Rightarrow> int \<Rightarrow> nat \<Rightarrow> int set" where
  "within nb s n = (\<Union>j\<le>n. reach nb s j)"

definition at_dist :: "(int \<Rightarrow> int set) \<Rightarrow> int \<Rightarrow> nat \<Rightarrow> int set" where
  "at_dist nb s n = reach nb s n - (\<Union>j<n. reach nb s j)"

text \<open>
  \<open>bfs_distance nb s v k\<close>: the node \<open>v\<close> is at distance exactly \<open>k\<close> from \<open>s\<close>, that is,
  some walk of \<open>k\<close> edges leads from \<open>s\<close> to \<open>v\<close> and no shorter one does.
\<close>

definition bfs_distance :: "(int \<Rightarrow> int set) \<Rightarrow> int \<Rightarrow> int \<Rightarrow> nat \<Rightarrow> bool" where
  "bfs_distance nb s v k \<longleftrightarrow>
     (\<exists>ws. length ws = k \<and> is_walk nb s ws v) \<and>
     (\<forall>j<k. \<not> (\<exists>ws. length ws = j \<and> is_walk nb s ws v))"

section \<open>Properties of the traversal\<close>

lemma visit_neighbors_sets:
  "visit_neighbors vs (visited, nxt) = (visited \<union> set vs, nxt \<union> (set vs - visited))"
  by (induction vs arbitrary: visited nxt) auto

lemma scan_frontier_sets:
  "scan_frontier nbl us (visited, nxt) =
     (visited \<union> (\<Union>u\<in>set us. set (nbl u)), nxt \<union> ((\<Union>u\<in>set us. set (nbl u)) - visited))"
proof (induction us arbitrary: visited nxt)
  case Nil
  show ?case by simp
next
  case (Cons u us)
  show ?case
    by (simp only: scan_frontier.simps visit_neighbors_sets Cons.IH) auto
qed

lemma scan_frontier_round:
  assumes "set us = frontier" and "\<And>u. set (nbl u) = nb u"
  shows "scan_frontier nbl us (visited, {}) =
           (visited \<union> bfs_round nb visited frontier, bfs_round nb visited frontier)"
  using assms by (auto simp: scan_frontier_sets bfs_round_def)

lemma reach_walk: "v \<in> reach nb s n \<longleftrightarrow> (\<exists>ws. length ws = n \<and> is_walk nb s ws v)"
proof (induction n arbitrary: v)
  case 0
  show ?case by auto
next
  case (Suc n)
  have snoc: "is_walk nb a (ws @ [w]) v \<longleftrightarrow> (\<exists>u. is_walk nb a ws u \<and> w \<in> nb u \<and> w = v)"
    for a ws w
    by (induction ws arbitrary: a) auto
  show ?case
  proof
    assume "v \<in> reach nb s (Suc n)"
    then obtain u where u: "u \<in> reach nb s n" and v: "v \<in> nb u" by auto
    from u Suc.IH obtain ws where "length ws = n" "is_walk nb s ws u" by blast
    with v have "length (ws @ [v]) = Suc n \<and> is_walk nb s (ws @ [v]) v"
      by (auto simp: snoc)
    then show "\<exists>ws. length ws = Suc n \<and> is_walk nb s ws v" by blast
  next
    assume "\<exists>ws. length ws = Suc n \<and> is_walk nb s ws v"
    then obtain ws where len: "length ws = Suc n" and w: "is_walk nb s ws v" by blast
    from len obtain ys y where ws: "ws = ys @ [y]" and ly: "length ys = n"
      by (metis length_Suc_conv_rev)
    from w ws obtain u where "is_walk nb s ys u" "y \<in> nb u" "y = v"
      by (auto simp: snoc)
    with ly Suc.IH show "v \<in> reach nb s (Suc n)" by auto
  qed
qed

lemma reach_Suc_iff: "v \<in> reach nb s (Suc n) \<longleftrightarrow> (\<exists>u\<in>reach nb s n. v \<in> nb u)"
  by simp

lemma within_iff: "v \<in> within nb s n \<longleftrightarrow> (\<exists>j\<le>n. v \<in> reach nb s j)"
  by (auto simp: within_def)

lemma at_dist_iff:
  "v \<in> at_dist nb s n \<longleftrightarrow> v \<in> reach nb s n \<and> (\<forall>j<n. v \<notin> reach nb s j)"
  by (auto simp: at_dist_def)

lemma within_0: "within nb s 0 = {s}"
  by (simp add: within_def)

lemma at_dist_0: "at_dist nb s 0 = {s}"
  by (simp add: at_dist_def)

lemma within_Suc: "within nb s (Suc n) = within nb s n \<union> at_dist nb s (Suc n)"
proof (intro equalityI subsetI)
  fix v assume "v \<in> within nb s (Suc n)"
  then obtain j where j: "j \<le> Suc n" and v: "v \<in> reach nb s j"
    unfolding within_iff by blast
  show "v \<in> within nb s n \<union> at_dist nb s (Suc n)"
  proof (cases "\<exists>i\<le>n. v \<in> reach nb s i")
    case True
    then show ?thesis unfolding Un_iff within_iff by blast
  next
    case False
    with j v have "j = Suc n" by (metis le_Suc_eq)
    with v False have "v \<in> at_dist nb s (Suc n)"
      unfolding at_dist_iff by (metis less_Suc_eq_le)
    then show ?thesis by blast
  qed
next
  fix v assume "v \<in> within nb s n \<union> at_dist nb s (Suc n)"
  then show "v \<in> within nb s (Suc n)"
    unfolding Un_iff within_iff at_dist_iff by (metis le_Suc_eq order_refl)
qed

lemma within_mono: "m \<le> n \<Longrightarrow> within nb s m \<subseteq> within nb s n"
  unfolding within_def by (rule UN_mono) auto

lemma at_dist_sub_within: "at_dist nb s n \<subseteq> within nb s n"
  unfolding within_iff at_dist_iff subset_iff by blast

lemma bfs_round_iff:
  "v \<in> bfs_round nb visited frontier \<longleftrightarrow> (\<exists>u\<in>frontier. v \<in> nb u) \<and> v \<notin> visited"
  by (auto simp: bfs_round_def)

lemma bfs_round_at_dist:
  "bfs_round nb (within nb s n) (at_dist nb s n) = at_dist nb s (Suc n)"
proof (intro equalityI subsetI)
  fix v assume "v \<in> bfs_round nb (within nb s n) (at_dist nb s n)"
  then obtain u where u: "u \<in> reach nb s n" and vu: "v \<in> nb u"
    and nv: "\<forall>j\<le>n. v \<notin> reach nb s j"
    by (auto simp: bfs_round_iff within_iff at_dist_iff)
  from u vu have "v \<in> reach nb s (Suc n)" unfolding reach_Suc_iff by blast
  with nv show "v \<in> at_dist nb s (Suc n)"
    unfolding at_dist_iff by (metis less_Suc_eq_le)
next
  fix v assume v: "v \<in> at_dist nb s (Suc n)"
  then have v1: "v \<in> reach nb s (Suc n)" and v2: "\<forall>j<Suc n. v \<notin> reach nb s j"
    unfolding at_dist_iff by blast+
  from v1 obtain u where u: "u \<in> reach nb s n" and vu: "v \<in> nb u"
    unfolding reach_Suc_iff by blast
  have "u \<notin> reach nb s j" if "j < n" for j
  proof
    assume "u \<in> reach nb s j"
    with vu have "v \<in> reach nb s (Suc j)" unfolding reach_Suc_iff by blast
    moreover from that have "Suc j < Suc n" by simp
    ultimately show False using v2 by blast
  qed
  with u have "u \<in> at_dist nb s n" unfolding at_dist_iff by blast
  moreover from v2 have "v \<notin> within nb s n"
    unfolding within_iff by (metis less_Suc_eq_le)
  ultimately show "v \<in> bfs_round nb (within nb s n) (at_dist nb s n)"
    using vu unfolding bfs_round_iff by blast
qed

lemma within_saturated:
  assumes "at_dist nb s (Suc n) = {}"
  shows "within nb s (n + k) = within nb s n"
proof -
  have r: "v \<in> within nb s n" if "v \<in> reach nb s (Suc n)" for v
  proof (rule ccontr)
    assume "v \<notin> within nb s n"
    then have "\<forall>j<Suc n. v \<notin> reach nb s j"
      unfolding within_iff by (metis less_Suc_eq_le)
    with that have "v \<in> at_dist nb s (Suc n)" unfolding at_dist_iff by blast
    with assms show False by blast
  qed
  have step: "v \<in> within nb s n" if "u \<in> within nb s n" and "v \<in> nb u" for u v
  proof -
    from that obtain j where j: "j \<le> n" and u: "u \<in> reach nb s j"
      unfolding within_iff by blast
    with that have v': "v \<in> reach nb s (Suc j)" unfolding reach_Suc_iff by blast
    show ?thesis
    proof (cases "j = n")
      case True
      with v' r show ?thesis by blast
    next
      case False
      with j have "Suc j \<le> n" by simp
      with v' show ?thesis unfolding within_iff by blast
    qed
  qed
  have reach_sub: "reach nb s (n + k) \<subseteq> within nb s n" for k
  proof (induction k)
    case 0
    show ?case unfolding within_iff subset_iff by auto
  next
    case (Suc k)
    show ?case
    proof
      fix v assume "v \<in> reach nb s (n + Suc k)"
      then obtain u where "u \<in> reach nb s (n + k)" "v \<in> nb u"
        unfolding add_Suc_right reach_Suc_iff by blast
      with Suc step show "v \<in> within nb s n" by blast
    qed
  qed
  have "within nb s (n + k) \<subseteq> within nb s n"
  proof
    fix v assume "v \<in> within nb s (n + k)"
    then obtain j where j: "j \<le> n + k" and v: "v \<in> reach nb s j"
      unfolding within_iff by blast
    show "v \<in> within nb s n"
    proof (cases "j \<le> n")
      case True
      with v show ?thesis unfolding within_iff by blast
    next
      case False
      then have "j = n + (j - n)" by simp
      with v reach_sub[of "j - n"] show ?thesis by auto
    qed
  qed
  with within_mono[of n "n + k" nb s] show ?thesis by auto
qed

lemma at_dist_distance: "v \<in> at_dist nb s k \<longleftrightarrow> bfs_distance nb s v k"
  unfolding at_dist_iff bfs_distance_def reach_walk ..

lemma at_dist_disjoint: "i < j \<Longrightarrow> at_dist nb s i \<inter> at_dist nb s j = {}"
  by (auto simp: at_dist_iff)

lemma within_Union_at_dist: "within nb s m = (\<Union>j\<le>m. at_dist nb s j)"
proof (induction m)
  case 0
  show ?case by (simp add: within_0 at_dist_0)
next
  case (Suc m)
  have "(\<Union>j\<le>Suc m. at_dist nb s j) = (\<Union>j\<le>m. at_dist nb s j) \<union> at_dist nb s (Suc m)"
    by (simp add: atMost_Suc Un_commute)
  with Suc show ?case by (simp add: within_Suc)
qed

text \<open>
  The invariant of the loop: after \<open>i\<close> rounds the levels are the distance classes
  \<open>0..i\<close>, \<open>visited\<close> holds the nodes at distance at most \<open>i\<close>, and the frontier is
  the last class.  The loop leaves with the classes \<open>0..m\<close> for some \<open>m\<close>, each class
  after \<open>i\<close> non-empty, and it leaves early only when class \<open>m + 1\<close> is empty.
\<close>

lemma bfs_loop_inv:
  assumes "bfs_loop nb n (map (at_dist nb s) [0..<Suc i], within nb s i, at_dist nb s i) = (L, V)"
  shows "\<exists>m. i \<le> m \<and> m \<le> i + n \<and> L = map (at_dist nb s) [0..<Suc m] \<and> V = within nb s m
            \<and> (m < i + n \<longrightarrow> at_dist nb s (Suc m) = {})
            \<and> (\<forall>j. i < j \<and> j \<le> m \<longrightarrow> at_dist nb s j \<noteq> {})"
  using assms
proof (induction n arbitrary: i)
  case 0
  then show ?case by auto
next
  case (Suc n)
  let ?nxt = "at_dist nb s (Suc i)"
  show ?case
  proof (cases "?nxt = {}")
    case True
    with Suc.prems have "L = map (at_dist nb s) [0..<Suc i]" "V = within nb s i"
      by (simp_all add: bfs_round_at_dist)
    with True show ?thesis by auto
  next
    case False
    have lv: "map (at_dist nb s) [0..<Suc i] @ [?nxt] = map (at_dist nb s) [0..<Suc (Suc i)]"
      by simp
    from False Suc.prems
    have "bfs_loop nb n (map (at_dist nb s) [0..<Suc (Suc i)], within nb s (Suc i), ?nxt) = (L, V)"
      by (simp only: bfs_loop.simps bfs_round_at_dist Let_def if_False lv within_Suc)
    from Suc.IH[OF this] obtain m where m: "Suc i \<le> m" "m \<le> Suc i + n"
      "L = map (at_dist nb s) [0..<Suc m]" "V = within nb s m"
      "m < Suc i + n \<longrightarrow> at_dist nb s (Suc m) = {}"
      "\<forall>j. Suc i < j \<and> j \<le> m \<longrightarrow> at_dist nb s j \<noteq> {}"
      by blast
    have "at_dist nb s j \<noteq> {}" if "i < j" "j \<le> m" for j
      using that False m(6) by (cases "j = Suc i") auto
    with m show ?thesis by (intro exI[of _ m]) auto
  qed
qed

lemma bfs_levels_shape:
  assumes "bfs_levels start depth out_adj in_adj direction = (L, V)"
  defines "nb \<equiv> neighbors out_adj in_adj direction"
  shows "\<exists>m. m \<le> nat depth \<and> L = map (at_dist nb start) [0..<Suc m] \<and> V = within nb start m
            \<and> (m < nat depth \<longrightarrow> at_dist nb start (Suc m) = {})
            \<and> (\<forall>j\<le>m. at_dist nb start j \<noteq> {})"
proof -
  have d: "nat (if depth < 0 then 0 else depth) = nat depth" by simp
  from assms(1) have
    "bfs_loop nb (nat depth) (map (at_dist nb start) [0..<Suc 0], within nb start 0,
       at_dist nb start 0) = (L, V)"
    unfolding bfs_levels_def Let_def d nb_def by (simp add: within_0 at_dist_0)
  from bfs_loop_inv[OF this] obtain m where m: "m \<le> nat depth"
    "L = map (at_dist nb start) [0..<Suc m]" "V = within nb start m"
    "m < nat depth \<longrightarrow> at_dist nb start (Suc m) = {}"
    "\<forall>j. 0 < j \<and> j \<le> m \<longrightarrow> at_dist nb start j \<noteq> {}"
    by auto
  have "at_dist nb start j \<noteq> {}" if "j \<le> m" for j
    using that m(5) by (cases "j = 0") (auto simp: at_dist_0)
  with m show ?thesis by (intro exI[of _ m]) auto
qed

lemma bfs_levels_visited:
  "snd (bfs_levels start depth out_adj in_adj direction)
     = within (neighbors out_adj in_adj direction) start (nat depth)"
proof -
  obtain L V where LV: "bfs_levels start depth out_adj in_adj direction = (L, V)"
    by (cases "bfs_levels start depth out_adj in_adj direction")
  let ?nb = "neighbors out_adj in_adj direction"
  from bfs_levels_shape[OF LV] obtain m where m: "m \<le> nat depth" "V = within ?nb start m"
    "m < nat depth \<longrightarrow> at_dist ?nb start (Suc m) = {}"
    by blast
  have "within ?nb start (nat depth) = within ?nb start m"
  proof (cases "m < nat depth")
    case True
    with m(3) have "within ?nb start (m + (nat depth - m)) = within ?nb start m"
      by (intro within_saturated) simp
    with True show ?thesis by simp
  next
    case False
    with m(1) show ?thesis by simp
  qed
  with m(2) LV show ?thesis by simp
qed

section \<open>Claims about the traversal\<close>

text \<open>
  Claim C10.  Every level returned by \<open>bfs_levels\<close> is non-empty (a round that discovers
  nothing leaves the loop before a level is appended), and there are at most
  \<open>max 0 depth + 1\<close> levels.
\<close>

theorem bfs_levels_nonempty_bounded:
  "{} \<notin> set (fst (bfs_levels start depth out_adj in_adj direction)) \<and>
   length (fst (bfs_levels start depth out_adj in_adj direction))
     \<le> nat (if depth < 0 then 0 else depth) + 1"
proof -
  obtain L V where LV: "bfs_levels start depth out_adj in_adj direction = (L, V)"
    by (cases "bfs_levels start depth out_adj in_adj direction")
  let ?nb = "neighbors out_adj in_adj direction"
  from bfs_levels_shape[OF LV] obtain m where m: "m \<le> nat depth"
    "L = map (at_dist ?nb start) [0..<Suc m]" "\<forall>j\<le>m. at_dist ?nb start j \<noteq> {}"
    by blast
  have "{} \<notin> set L"
  proof
    assume "{} \<in> set L"
    with m(2) obtain j where "j < Suc m" "at_dist ?nb start j = {}"
      by (auto simp del: upt_Suc)
    with m(3) show False by (simp add: less_Suc_eq_le)
  qed
  moreover from m(1,2) have "length L \<le> nat depth + 1" by simp
  moreover have "nat (if depth < 0 then 0 else depth) = nat depth" by simp
  ultimately show ?thesis using LV by simp
qed

theorem bfs_levels_nonempty_bounded_witness:
  "{} \<notin> set (fst (bfs_levels 0 2 [0 \<mapsto> {1}] [1 \<mapsto> {0}] ''out'')) \<and>
   length (fst (bfs_levels 0 2 [0 \<mapsto> {1}] [1 \<mapsto> {0}] ''out'')) \<le> nat 2 + 1 \<and>
   fst (bfs_levels 0 2 [0 \<mapsto> {1}] [1 \<mapsto> {0}] ''out'') = [{0}, {1}]"
proof -
  have "fst (bfs_levels 0 2 [0 \<mapsto> {1}] [1 \<mapsto> {0}] ''out'') = [{0}, {1}]"
    by (auto simp: bfs_levels_def bfs_round_def neighbors_def adj_get_def numeral_2_eq_2 Let_def)
  with bfs_levels_nonempty_bounded[of 0 2 "[0 \<mapsto> {1}]" "[1 \<mapsto> {0}]" "''out''"]
  show ?thesis by simp
qed

text \<open>
  Claim C6.  For a fixed start node, direction and adjacency data the visited set grows
  with the hop budget: a smaller budget yields a subset of what a larger one yields.
\<close>

theorem bfs_levels_monotone:
  "d1 \<le> d2 \<Longrightarrow> snd (bfs_levels start d1 out_adj in_adj direction)
       \<subseteq> snd (bfs_levels start d2 out_adj in_adj direction)"
  unfolding bfs_levels_visited by (rule within_mono) simp

theorem bfs_levels_monotone_witness:
  "(1::int) \<le> 2 \<and>
   snd (bfs_levels 0 1 [0 \<mapsto> {1}, 1 \<mapsto> {2}] [1 \<mapsto> {0}, 2 \<mapsto> {1}] ''out'')
     \<subseteq> snd (bfs_levels 0 2 [0 \<mapsto> {1}, 1 \<mapsto> {2}] [1 \<mapsto> {0}, 2 \<mapsto> {1}] ''out'') \<and>
   snd (bfs_levels 0 1 [0 \<mapsto> {1}, 1 \<mapsto> {2}] [1 \<mapsto> {0}, 2 \<mapsto> {1}] ''out'') = {0, 1}"
proof -
  have h: "(1::int) \<le> 2" by simp
  have "snd (bfs_levels 0 1 [0 \<mapsto> {1}, 1 \<mapsto> {2}] [1 \<mapsto> {0}, 2 \<mapsto> {1}] ''out'') = {0, 1}"
    by (auto simp: bfs_levels_def bfs_round_def neighbors_def adj_get_def Let_def)
  with bfs_levels_monotone[OF h, of 0 "[0 \<mapsto> {1}, 1 \<mapsto> {2}]" "[1 \<mapsto> {0}, 2 \<mapsto> {1}]" "''out''"] h
  show ?thesis by simp
qed

text \<open>
  Claim C1.  For the pair \<open>(levels, visited)\<close> returned by \<open>bfs_levels\<close>: level 0 is
  \<open>{start}\<close>; for \<open>k > 0\<close> level \<open>k\<close> holds exactly the nodes at distance \<open>k\<close> from the start
  under the neighbour relation of the direction; the union of the levels is the visited
  set; two different levels share no node.
\<close>

theorem bfs_levels_correct:
  assumes "bfs_levels start depth out_adj in_adj direction = (levels, visited)"
  shows "levels \<noteq> [] \<and> levels ! 0 = {start}
       \<and> (\<forall>k. 0 < k \<and> k < length levels \<longrightarrow>
             levels ! k = {v. bfs_distance (neighbors out_adj in_adj direction) start v k})
       \<and> \<Union>(set levels) = visited
       \<and> (\<forall>i j. i < j \<and> j < length levels \<longrightarrow> levels ! i \<inter> levels ! j = {})"
proof -
  let ?nb = "neighbors out_adj in_adj direction"
  from bfs_levels_shape[OF assms] obtain m where
    L: "levels = map (at_dist ?nb start) [0..<Suc m]" and V: "visited = within ?nb start m"
    by blast
  have nth: "levels ! k = at_dist ?nb start k" if "k < length levels" for k
    using that unfolding L by (simp del: upt_Suc)
  have len: "length levels = Suc m" unfolding L by simp
  have "levels \<noteq> []" using len by auto
  moreover have "levels ! 0 = {start}" using nth[of 0] len by (simp add: at_dist_0)
  moreover have "levels ! k = {v. bfs_distance ?nb start v k}" if "k < length levels" for k
    using nth[OF that] by (auto simp: at_dist_distance)
  moreover have "\<Union>(set levels) = visited"
  proof -
    have "set levels = at_dist ?nb start ` {..m}"
    proof -
      have "{0..<Suc m} = {..m}" by auto
      then show ?thesis unfolding L by (simp del: upt_Suc)
    qed
    then show ?thesis unfolding V within_Union_at_dist by simp
  qed
  moreover have "levels ! i \<inter> levels ! j = {}" if "i < j" "j < length levels" for i j
  proof -
    from that have "i < length levels" by simp
    with that nth show ?thesis by (simp add: at_dist_disjoint)
  qed
  ultimately show ?thesis by blast
qed


theorem bfs_levels_correct_witness:
  "bfs_levels 0 2 [0 \<mapsto> {1}, 1 \<mapsto> {2}, 2 \<mapsto> {0}] [1 \<mapsto> {0}, 2 \<mapsto> {1}, 0 \<mapsto> {2}] ''out''
     = ([{0}, {1}, {2}], {0, 1, 2}) \<and>
   {v. bfs_distance (neighbors [0 \<mapsto> {1}, 1 \<mapsto> {2}, 2 \<mapsto> {0}]
          [1 \<mapsto> {0}, 2 \<mapsto> {1}, 0 \<mapsto> {2}] ''out'') 0 v 2} = {2} \<and>
   {0} \<inter> {2} = ({} :: int set)"
proof -
  have e: "bfs_levels 0 2 [0 \<mapsto> {1}, 1 \<mapsto> {2}, 2 \<mapsto> {0}] [1 \<mapsto> {0}, 2 \<mapsto> {1}, 0 \<mapsto> {2}] ''out''
     = ([{0}, {1}, {2}], {0, 1, 2})"
    by (auto simp: bfs_levels_def bfs_round_def neighbors_def adj_get_def numeral_2_eq_2 Let_def)
  from bfs_levels_correct[OF e] have
    "\<forall>k. 0 < k \<and> k < length [{0::int}, {1}, {2}] \<longrightarrow> [{0::int}, {1}, {2}] ! k =
       {v. bfs_distance (neighbors [0 \<mapsto> {1}, 1 \<mapsto> {2}, 2 \<mapsto> {0}]
          [1 \<mapsto> {0}, 2 \<mapsto> {1}, 0 \<mapsto> {2}] ''out'') 0 v k}"
    by blast
  from this[rule_format, of 2] e show ?thesis by simp
qed

end
